theory Spec2Isabelle
  imports Main "HOL-Library.Signed_Division"
begin

section \<open>The C target: integer ranges, undefined behaviour\<close>

text \<open>
  The table of \<^verbatim>\<open>hash_table.c\<close> is embedded for an LP64 target with a signed
  \<^verbatim>\<open>char\<close> (x86-64 System V): \<^verbatim>\<open>int\<close> has 32 bits, \<^verbatim>\<open>long\<close> has 64.
  C integers are HOL integers with every range check written out; an operation whose
  behaviour C leaves undefined ends the computation with an \<open>error\<close>.
  Allocation is assumed to succeed (\<^verbatim>\<open>xmalloc\<close> and \<^verbatim>\<open>xcalloc\<close> leave the process
  otherwise), and the ownership of the strings is not part of the model: a key or value
  is the character sequence in front of the terminating NUL.
\<close>

definition INT_MAX :: int where
  "INT_MAX = 2147483647"

definition INT_MIN :: int where
  "INT_MIN = - 2147483648"

definition LONG_MAX :: int where
  "LONG_MAX = 9223372036854775807"

definition LONG_MIN :: int where
  "LONG_MIN = - 9223372036854775808"

definition in_int :: "int \<Rightarrow> bool" where
  "in_int x = (INT_MIN \<le> x \<and> x \<le> INT_MAX)"

definition in_long :: "int \<Rightarrow> bool" where
  "in_long x = (LONG_MIN \<le> x \<and> x \<le> LONG_MAX)"

datatype error =
    Long_overflow   \<comment> \<open>a \<^verbatim>\<open>long\<close> result out of range, or a \<^verbatim>\<open>double\<close> too large for \<^verbatim>\<open>long\<close>\<close>
  | Int_overflow    \<comment> \<open>an \<^verbatim>\<open>int\<close> result out of range\<close>
  | Div_by_zero     \<comment> \<open>\<^verbatim>\<open>%\<close> with a zero divisor\<close>
  | Out_of_bounds   \<comment> \<open>a read of \<^verbatim>\<open>ht->items\<close> outside the array\<close>
  | No_prime        \<comment> \<open>the search for a prime does not return\<close>

text \<open>The value of \<^verbatim>\<open>s[i]\<close> after promotion: a signed byte.\<close>

definition char_val :: "char \<Rightarrow> int" where
  "char_val c = (let n = of_char c in if n < 128 then n else n - 256)"

text \<open>
  \<^verbatim>\<open>pow(a, e)\<close> is a \<^verbatim>\<open>double\<close> (IEEE 754 binary64). An integer of magnitude up
  to \<open>2^53\<close> is a \<^verbatim>\<open>double\<close>; a larger one is rounded to 53 significant bits, to
  nearest, ties to even. \<open>ulp_of n\<close> is the distance of the \<^verbatim>\<open>double\<close>s around
  \<open>n\<close>, and \<open>round_double\<close> the \<^verbatim>\<open>double\<close> nearest to an integer (\<^verbatim>\<open>pow\<close> is taken
  to be correctly rounded, as that of glibc is on these arguments).
\<close>

function ulp_of :: "int \<Rightarrow> int" where
  "ulp_of n = (if n < 9007199254740992 then 1 else 2 * ulp_of (n div 2))"
  by pat_completeness auto
termination
  by (relation "measure nat") auto

definition round_double :: "int \<Rightarrow> int" where
  "round_double x =
     (if \<bar>x\<bar> \<le> 9007199254740992 then x
      else
        (let n = \<bar>x\<bar>; u = ulp_of n; q = n div u; r = n mod u;
             q' = (if 2 * r < u \<or> (2 * r = u \<and> even q) then q else q + 1)
         in sgn x * (q' * u)))"

text \<open>
  \<^verbatim>\<open>(long)pow(a, e)\<close>: the conversion of a \<^verbatim>\<open>double\<close> outside \<^verbatim>\<open>long\<close> is
  undefined; inside, the result is the \<^verbatim>\<open>double\<close>, which is an integer.
\<close>

definition pow_long :: "int \<Rightarrow> nat \<Rightarrow> error + int" where
  "pow_long a e =
     (let p = round_double (a ^ e) in
      if in_long p then Inr p else Inl Long_overflow)"

section \<open>Data model\<close>

text \<open>
  An element of \<^verbatim>\<open>ht->items\<close> is \<^verbatim>\<open>NULL\<close>, the address of the static
  \<^verbatim>\<open>HT_DELETED_ITEM\<close>, or a pointer to an item the table owns. The table has the
  fields \<^verbatim>\<open>size\<close>, \<^verbatim>\<open>count\<close> and \<^verbatim>\<open>items\<close> of \<^verbatim>\<open>hash_table.h\<close> and the
  field \<^verbatim>\<open>base_size\<close> that \<^verbatim>\<open>ht_new_sized\<close> assigns.
\<close>

datatype slot = Empty | Deleted | Item string string

record ht_hash_table =
  base_size :: int
  size_ht :: int
  count :: int
  items :: "slot list"

fun is_key :: "string \<Rightarrow> slot \<Rightarrow> bool" where
  "is_key key (Item k v) = (k = key)"
| "is_key key Empty = False"
| "is_key key Deleted = False"

fun slot_value :: "slot \<Rightarrow> string option" where
  "slot_value (Item k v) = Some v"
| "slot_value Empty = None"
| "slot_value Deleted = None"

text \<open>\<^verbatim>\<open>ht->items[index]\<close>: the read is defined inside the array only.\<close>

definition item_at :: "ht_hash_table \<Rightarrow> int \<Rightarrow> error + slot" where
  "item_at ht index =
     (if 0 \<le> index \<and> index < int (length (items ht)) then Inr (items ht ! nat index)
      else Inl Out_of_bounds)"

text \<open>The keys of the live items, in array order.\<close>

fun slot_keys :: "slot list \<Rightarrow> string list" where
  "slot_keys [] = []"
| "slot_keys (Item k v # xs) = k # slot_keys xs"
| "slot_keys (Empty # xs) = slot_keys xs"
| "slot_keys (Deleted # xs) = slot_keys xs"

section \<open>Creation\<close>

text \<open>
  Modelled from the spec: \<^verbatim>\<open>next_prime\<close> is called by \<^verbatim>\<open>ht_new_sized\<close> and is not
  among the sources. The spec gives the capacity as "the next prime \<open>\<ge>\<close> a target size";
  the search upwards is a loop, so a search that does not end is \<open>None\<close>.
\<close>

definition is_prime :: "int \<Rightarrow> bool" where
  "is_prime n = (2 \<le> n \<and> list_all (\<lambda>d. n mod int d \<noteq> 0) [2 ..< nat n])"

partial_function (option) next_prime :: "int \<Rightarrow> int option" where
  "next_prime n = (if is_prime n then Some n else next_prime (n + 1))"

definition ht_new_sized :: "int \<Rightarrow> error + ht_hash_table" where
  "ht_new_sized bs =
     (case next_prime bs of
        None \<Rightarrow> Inl No_prime
      | Some p \<Rightarrow>
          Inr \<lparr>base_size = bs, size_ht = p, count = 0, items = replicate (nat p) Empty\<rparr>)"

definition HT_INITIAL_BASE_SIZE :: int where
  "HT_INITIAL_BASE_SIZE = 50"

definition ht_new :: "error + ht_hash_table" where
  "ht_new = ht_new_sized HT_INITIAL_BASE_SIZE"

section \<open>Hashing\<close>

definition HT_PRIME_1 :: int where
  "HT_PRIME_1 = 151"

definition HT_PRIME_2 :: int where
  "HT_PRIME_2 = 163"

text \<open>
  The loop of \<^verbatim>\<open>ht_hash\<close> over the characters still to read: at \<open>c # cs\<close> the
  exponent \<^verbatim>\<open>len_s - (i+1)\<close> is the number of characters after \<open>c\<close>. The remainder
  \<^verbatim>\<open>%\<close> of C truncates towards zero (\<open>smod\<close>).
\<close>

fun ht_hash_loop :: "string \<Rightarrow> int \<Rightarrow> int \<Rightarrow> int \<Rightarrow> error + int" where
  "ht_hash_loop [] a m hash = Inr hash"
| "ht_hash_loop (c # cs) a m hash =
     (case pow_long a (length cs) of
        Inl e \<Rightarrow> Inl e
      | Inr p \<Rightarrow>
          (let t = p * char_val c in
           if in_long t \<and> in_long (hash + t) then
             (if m = 0 then Inl Div_by_zero
              else if hash + t = LONG_MIN \<and> m = - 1 then Inl Long_overflow
              else ht_hash_loop cs a m ((hash + t) smod m))
           else Inl Long_overflow))"

definition ht_hash :: "string \<Rightarrow> int \<Rightarrow> int \<Rightarrow> error + int" where
  "ht_hash s a m = ht_hash_loop s a m 0"

definition ht_get_hash :: "string \<Rightarrow> int \<Rightarrow> int \<Rightarrow> error + int" where
  "ht_get_hash s num_buckets attempt =
     (case ht_hash s HT_PRIME_1 num_buckets of
        Inl e \<Rightarrow> Inl e
      | Inr hash_a \<Rightarrow>
          (case ht_hash s HT_PRIME_2 num_buckets of
             Inl e \<Rightarrow> Inl e
           | Inr hash_b \<Rightarrow>
               (let step = hash_b + 1; prod = attempt * step; total = hash_a + prod in
                if in_int step \<and> in_int prod \<and> in_int total then
                  (if num_buckets = 0 then Inl Div_by_zero
                   else if total = INT_MIN \<and> num_buckets = - 1 then Inl Int_overflow
                   else Inr (total smod num_buckets))
                else Inl Int_overflow)))"

section \<open>Insert, search, delete\<close>

text \<open>
  Each loop carries the C variables \<^verbatim>\<open>index\<close>, the item read there, and \<^verbatim>\<open>i\<close>.
  One round computes the next index, reads the array and increments \<^verbatim>\<open>i\<close>, in this
  order; the increment of \<^verbatim>\<open>INT_MAX\<close> is undefined.
\<close>

function insert_loop ::
  "ht_hash_table \<Rightarrow> string \<Rightarrow> string \<Rightarrow> int \<Rightarrow> slot \<Rightarrow> int \<Rightarrow> error + ht_hash_table" where
  "insert_loop ht key val index cur_item i =
     (if cur_item \<noteq> Empty then
        (if is_key key cur_item then
           Inr (ht\<lparr>items := (items ht)[nat index := Item key val]\<rparr>)
         else
           (case ht_get_hash key (size_ht ht) i of
              Inl e \<Rightarrow> Inl e
            | Inr index' \<Rightarrow>
                (case item_at ht index' of
                   Inl e \<Rightarrow> Inl e
                 | Inr cur_item' \<Rightarrow>
                     if INT_MAX \<le> i then Inl Int_overflow
                     else insert_loop ht key val index' cur_item' (i + 1))))
      else if INT_MAX \<le> count ht then Inl Int_overflow
      else Inr (ht\<lparr>items := (items ht)[nat index := Item key val], count := count ht + 1\<rparr>))"
  by pat_completeness auto
termination
  by (relation "measure (\<lambda>(ht, key, val, index, cur_item, i). nat (INT_MAX - i))") auto

definition ht_insert :: "ht_hash_table \<Rightarrow> string \<Rightarrow> string \<Rightarrow> error + ht_hash_table" where
  "ht_insert ht key val =
     (case ht_get_hash key (size_ht ht) 0 of
        Inl e \<Rightarrow> Inl e
      | Inr index \<Rightarrow>
          (case item_at ht index of
             Inl e \<Rightarrow> Inl e
           | Inr cur_item \<Rightarrow> insert_loop ht key val index cur_item 1))"

text \<open>\<^verbatim>\<open>ht_search\<close> returns the stored value, or \<^verbatim>\<open>NULL\<close> (\<open>None\<close>).\<close>

function search_loop ::
  "ht_hash_table \<Rightarrow> string \<Rightarrow> int \<Rightarrow> slot \<Rightarrow> int \<Rightarrow> error + string option" where
  "search_loop ht key index item i =
     (if item \<noteq> Empty then
        (if is_key key item then Inr (slot_value item)
         else
           (case ht_get_hash key (size_ht ht) i of
              Inl e \<Rightarrow> Inl e
            | Inr index' \<Rightarrow>
                (case item_at ht index' of
                   Inl e \<Rightarrow> Inl e
                 | Inr item' \<Rightarrow>
                     if INT_MAX \<le> i then Inl Int_overflow
                     else search_loop ht key index' item' (i + 1))))
      else Inr None)"
  by pat_completeness auto
termination
  by (relation "measure (\<lambda>(ht, key, index, item, i). nat (INT_MAX - i))") auto

definition ht_search :: "ht_hash_table \<Rightarrow> string \<Rightarrow> error + string option" where
  "ht_search ht key =
     (case ht_get_hash key (size_ht ht) 0 of
        Inl e \<Rightarrow> Inl e
      | Inr index \<Rightarrow>
          (case item_at ht index of
             Inl e \<Rightarrow> Inl e
           | Inr item \<Rightarrow> search_loop ht key index item 1))"

function delete_loop ::
  "ht_hash_table \<Rightarrow> string \<Rightarrow> int \<Rightarrow> slot \<Rightarrow> int \<Rightarrow> error + ht_hash_table" where
  "delete_loop ht key index item i =
     (if item \<noteq> Empty then
        (if is_key key item then
           (if count ht \<le> INT_MIN then Inl Int_overflow
            else Inr (ht\<lparr>items := (items ht)[nat index := Deleted], count := count ht - 1\<rparr>))
         else
           (case ht_get_hash key (size_ht ht) i of
              Inl e \<Rightarrow> Inl e
            | Inr index' \<Rightarrow>
                (case item_at ht index' of
                   Inl e \<Rightarrow> Inl e
                 | Inr item' \<Rightarrow>
                     if INT_MAX \<le> i then Inl Int_overflow
                     else delete_loop ht key index' item' (i + 1))))
      else Inr ht)"
  by pat_completeness auto
termination
  by (relation "measure (\<lambda>(ht, key, index, item, i). nat (INT_MAX - i))") auto

definition ht_delete :: "ht_hash_table \<Rightarrow> string \<Rightarrow> error + ht_hash_table" where
  "ht_delete ht key =
     (case ht_get_hash key (size_ht ht) 0 of
        Inl e \<Rightarrow> Inl e
      | Inr index \<Rightarrow>
          (case item_at ht index of
             Inl e \<Rightarrow> Inl e
           | Inr item \<Rightarrow> delete_loop ht key index item 1))"

section \<open>Reachable tables\<close>

text \<open>
  The states a client can see: the table \<^verbatim>\<open>ht_new\<close> returns, and the table after
  every call of \<^verbatim>\<open>ht_insert\<close> or \<^verbatim>\<open>ht_delete\<close> that returns.
\<close>

inductive reachable :: "ht_hash_table \<Rightarrow> bool" where
  created: "ht_new = Inr ht \<Longrightarrow> reachable ht"
| inserted: "reachable ht \<Longrightarrow> ht_insert ht key val = Inr ht' \<Longrightarrow> reachable ht'"
| deleted: "reachable ht \<Longrightarrow> ht_delete ht key = Inr ht' \<Longrightarrow> reachable ht'"


text \<open>A client that inserts a list of pairs in order and stops when a call fails.\<close>

fun ht_insert_all :: "ht_hash_table \<Rightarrow> (string \<times> string) list \<Rightarrow> error + ht_hash_table" where
  "ht_insert_all ht [] = Inr ht"
| "ht_insert_all ht ((k, v) # kvs) =
     (case ht_insert ht k v of Inl e \<Rightarrow> Inl e | Inr ht' \<Rightarrow> ht_insert_all ht' kvs)"

section \<open>The probe walk shared by the three operations\<close>

text \<open>
  \<^verbatim>\<open>ht_insert\<close>, \<^verbatim>\<open>ht_search\<close> and \<^verbatim>\<open>ht_delete\<close> run the same walk and differ
  in what they do where it stops. \<open>probe\<close> is that walk alone, a device of the proofs:
  it returns the index of the first slot that is \<^verbatim>\<open>NULL\<close> or holds the key. The
  lemmas \<open>ht_search_probe\<close>, \<open>ht_insert_probe\<close> and \<open>ht_delete_probe\<close> below tie the
  three operations to it.
\<close>

function probe :: "ht_hash_table \<Rightarrow> string \<Rightarrow> int \<Rightarrow> int \<Rightarrow> error + int" where
  "probe ht key index i =
     (case item_at ht index of
        Inl e \<Rightarrow> Inl e
      | Inr item \<Rightarrow>
          if item = Empty \<or> is_key key item then Inr index
          else
            (case ht_get_hash key (size_ht ht) i of
               Inl e \<Rightarrow> Inl e
             | Inr index' \<Rightarrow>
                 (case item_at ht index' of
                    Inl e \<Rightarrow> Inl e
                  | Inr item' \<Rightarrow>
                      if INT_MAX \<le> i then Inl Int_overflow
                      else probe ht key index' (i + 1))))"
  by pat_completeness auto
termination
  by (relation "measure (\<lambda>(ht, key, index, i). nat (INT_MAX - i))") auto

definition ht_probe :: "ht_hash_table \<Rightarrow> string \<Rightarrow> error + int" where
  "ht_probe ht key =
     (case ht_get_hash key (size_ht ht) 0 of
        Inl e \<Rightarrow> Inl e
      | Inr index \<Rightarrow> probe ht key index 1)"

text \<open>The invariant of the reachable tables: the walk for a stored key ends at its slot.\<close>

definition chained :: "ht_hash_table \<Rightarrow> bool" where
  "chained ht =
     (\<forall>p k v. p < length (items ht) \<longrightarrow> items ht ! p = Item k v \<longrightarrow> ht_probe ht k = Inr (int p))"

section \<open>Concrete tables\<close>

definition fresh_table :: ht_hash_table where
  "fresh_table = \<lparr>base_size = 50, size_ht = 53, count = 0, items = replicate 53 Empty\<rparr>"

definition table_i :: ht_hash_table where
  "table_i = fresh_table\<lparr>items := (items fresh_table)[52 := Item ''i'' ''1''], count := 1\<rparr>"

definition table_4 :: ht_hash_table where
  "table_4 = fresh_table\<lparr>items := (items fresh_table)[52 := Item ''4'' ''x''], count := 1\<rparr>"

definition table_4d :: ht_hash_table where
  "table_4d = fresh_table\<lparr>items := (items fresh_table)[52 := Deleted]\<rparr>"

definition table_a :: ht_hash_table where
  "table_a = fresh_table\<lparr>items := (items fresh_table)[44 := Item ''a'' ''1''], count := 1\<rparr>"

definition table_ad :: ht_hash_table where
  "table_ad = fresh_table\<lparr>items := (items fresh_table)[44 := Deleted]\<rparr>"

definition table_ada :: ht_hash_table where
  "table_ada =
     fresh_table\<lparr>items := (items fresh_table)[44 := Deleted, 36 := Item ''a'' ''2''], count := 1\<rparr>"

definition table_adab :: ht_hash_table where
  "table_adab =
     fresh_table\<lparr>items := (items fresh_table)
       [44 := Deleted, 36 := Item ''a'' ''2'', 45 := Item ''b'' ''3''], count := 2\<rparr>"

text \<open>53 distinct keys of one character each.\<close>

definition keys53 :: "(string \<times> string) list" where
  "keys53 = map (\<lambda>c. ([c], ''v''))
     ''4012356789ABCDEFGHIJKLMNOPQRSTUVWXYZabcdefghjklmnopqr''"

section \<open>The hash of the spec\<close>

text \<open>
  The spec's words for \<^verbatim>\<open>ht_hash\<close>: the string read as digits in base \<open>a\<close>, each
  character's code a digit. \<open>poly_hash\<close> is that polynomial, before the reduction
  modulo \<open>m\<close>.
\<close>

fun poly_hash :: "string \<Rightarrow> int \<Rightarrow> int" where
  "poly_hash [] a = 0"
| "poly_hash (c # cs) a = a ^ length cs * char_val c + poly_hash cs a"

declare next_prime.simps [code]

declare ulp_of.simps [simp del]

declare probe.simps [simp del] search_loop.simps [simp del] insert_loop.simps [simp del]
  delete_loop.simps [simp del]

section \<open>The operations in terms of the probe walk\<close>

lemma probe_end:
  "probe ht key index i = Inr p \<Longrightarrow>
     0 \<le> p \<and> p < int (length (items ht)) \<and>
     (items ht ! nat p = Empty \<or> is_key key (items ht ! nat p))"
proof (induction ht key index i rule: probe.induct)
  case (1 ht key index i)
  obtain item where it: "item_at ht index = Inr item"
    using "1.prems" by (subst (asm) probe.simps) (auto split: sum.splits)
  show ?case
  proof (cases "item = Empty \<or> is_key key item")
    case True
    then have "p = index"
      using "1.prems" it by (subst (asm) probe.simps) auto
    then show ?thesis
      using it True by (auto simp: item_at_def split: if_splits)
  next
    case False
    then obtain index' item' where
      "ht_get_hash key (size_ht ht) i = Inr index'" "item_at ht index' = Inr item'"
      "\<not> INT_MAX \<le> i" "probe ht key index' (i + 1) = Inr p"
      using "1.prems" it by (subst (asm) probe.simps) (auto split: sum.splits if_splits)
    then show ?thesis
      using "1.IH" it False by blast
  qed
qed

lemma probe_update_hit:
  "size_ht ht' = size_ht ht \<Longrightarrow> items ht' = (items ht)[nat p := Item key v] \<Longrightarrow>
   probe ht key index i = Inr p \<Longrightarrow> probe ht' key index i = Inr p"
proof (induction ht key index i rule: probe.induct)
  case (1 ht key index i)
  note sz = "1.prems"(1) and upd = "1.prems"(2) and run = "1.prems"(3)
  obtain item where it: "item_at ht index = Inr item"
    using run by (subst (asm) probe.simps) (auto split: sum.splits)
  have len: "length (items ht') = length (items ht)"
    using upd by simp
  show ?case
  proof (cases "index = p")
    case True
    then have "item_at ht' index = Inr (Item key v)"
      using it upd by (auto simp: item_at_def split: if_splits)
    then show ?thesis
      using True by (subst probe.simps) simp
  next
    case False
    moreover have "0 \<le> p"
      using probe_end [OF run] by simp
    ultimately have "nat index \<noteq> nat p \<or> index < 0"
      by linarith
    then have it': "item_at ht' index = Inr item"
      using it upd by (auto simp: item_at_def split: if_splits)
    have skip: "\<not> (item = Empty \<or> is_key key item)"
      using run it False by (subst (asm) probe.simps) (auto split: if_splits)
    then obtain index' item' where nxt:
      "ht_get_hash key (size_ht ht) i = Inr index'" "item_at ht index' = Inr item'"
      "\<not> INT_MAX \<le> i" "probe ht key index' (i + 1) = Inr p"
      using run it by (subst (asm) probe.simps) (auto split: sum.splits if_splits)
    have "probe ht' key index' (i + 1) = Inr p"
      using "1.IH" it skip nxt sz upd by blast
    moreover obtain item'' where "item_at ht' index' = Inr item''"
      using nxt(2) len by (auto simp: item_at_def split: if_splits)
    ultimately show ?thesis
      using it' skip nxt sz by (subst probe.simps) auto
  qed
qed

lemma probe_update_other:
  "size_ht ht' = size_ht ht \<Longrightarrow> items ht' = (items ht)[q := s] \<Longrightarrow>
   s \<noteq> Empty \<Longrightarrow> \<not> is_key key s \<Longrightarrow> nat p \<noteq> q \<Longrightarrow>
   probe ht key index i = Inr p \<Longrightarrow> probe ht' key index i = Inr p"
proof (induction ht key index i rule: probe.induct)
  case (1 ht key index i)
  note sz = "1.prems"(1) and upd = "1.prems"(2) and s = "1.prems"(3,4)
    and neq = "1.prems"(5) and run = "1.prems"(6)
  obtain item where it: "item_at ht index = Inr item"
    using run by (subst (asm) probe.simps) (auto split: sum.splits)
  have len: "length (items ht') = length (items ht)"
    using upd by simp
  show ?case
  proof (cases "item = Empty \<or> is_key key item")
    case True
    then have "p = index"
      using run it by (subst (asm) probe.simps) auto
    then have "item_at ht' index = Inr item"
      using it upd neq by (auto simp: item_at_def split: if_splits)
    then show ?thesis
      using True \<open>p = index\<close> by (subst probe.simps) auto
  next
    case False
    then obtain index' item' where nxt:
      "ht_get_hash key (size_ht ht) i = Inr index'" "item_at ht index' = Inr item'"
      "\<not> INT_MAX \<le> i" "probe ht key index' (i + 1) = Inr p"
      using run it by (subst (asm) probe.simps) (auto split: sum.splits if_splits)
    have "probe ht' key index' (i + 1) = Inr p"
      using "1.IH" it False nxt sz upd s neq by blast
    moreover obtain item'' where "item_at ht' index' = Inr item''"
      using nxt(2) len by (auto simp: item_at_def split: if_splits)
    moreover obtain cur where "item_at ht' index = Inr cur" "\<not> (cur = Empty \<or> is_key key cur)"
      using it False upd s by (cases "nat index = q") (auto simp: item_at_def split: if_splits)
    ultimately show ?thesis
      using nxt sz by (subst probe.simps) auto
  qed
qed

lemma search_loop_probe:
  "item_at ht index = Inr item \<Longrightarrow>
   search_loop ht key index item i =
     (case probe ht key index i of
        Inl e \<Rightarrow> Inl e
      | Inr p \<Rightarrow> Inr (slot_value (items ht ! nat p)))"
proof (induction ht key index item i rule: search_loop.induct)
  case (1 ht key index item i)
  show ?case
    apply (subst search_loop.simps)
    apply (subst probe.simps)
    using "1.prems"
    apply (auto simp: "1.IH" split: sum.splits)
     apply (auto simp: item_at_def split: if_splits)
    done
qed

lemma insert_loop_probe:
  "item_at ht index = Inr cur_item \<Longrightarrow>
   insert_loop ht key val index cur_item i =
     (case probe ht key index i of
        Inl e \<Rightarrow> Inl e
      | Inr p \<Rightarrow>
          if items ht ! nat p = Empty then
            (if INT_MAX \<le> count ht then Inl Int_overflow
             else Inr (ht\<lparr>items := (items ht)[nat p := Item key val], count := count ht + 1\<rparr>))
          else Inr (ht\<lparr>items := (items ht)[nat p := Item key val]\<rparr>))"
proof (induction ht key val index cur_item i rule: insert_loop.induct)
  case (1 ht key val index cur_item i)
  show ?case
    apply (subst insert_loop.simps)
    apply (subst probe.simps)
    using "1.prems"
    apply (auto simp: "1.IH" split: sum.splits)
     apply (auto simp: item_at_def split: if_splits)
    done
qed

lemma delete_loop_probe:
  "item_at ht index = Inr item \<Longrightarrow>
   delete_loop ht key index item i =
     (case probe ht key index i of
        Inl e \<Rightarrow> Inl e
      | Inr p \<Rightarrow>
          if items ht ! nat p = Empty then Inr ht
          else if count ht \<le> INT_MIN then Inl Int_overflow
          else Inr (ht\<lparr>items := (items ht)[nat p := Deleted], count := count ht - 1\<rparr>))"
proof (induction ht key index item i rule: delete_loop.induct)
  case (1 ht key index item i)
  show ?case
    apply (subst delete_loop.simps)
    apply (subst probe.simps)
    using "1.prems"
    apply (auto simp: "1.IH" split: sum.splits)
     apply (auto simp: item_at_def split: if_splits)
    done
qed


lemma probe_oob: "item_at ht index = Inl e \<Longrightarrow> probe ht key index i = Inl e"
  by (subst probe.simps) simp

lemma ht_search_probe:
  "ht_search ht key =
     (case ht_probe ht key of
        Inl e \<Rightarrow> Inl e
      | Inr p \<Rightarrow> Inr (slot_value (items ht ! nat p)))"
proof (cases "ht_get_hash key (size_ht ht) 0")
  case (Inl e)
  then show ?thesis by (simp add: ht_search_def ht_probe_def)
next
  case (Inr index)
  then show ?thesis
    by (cases "item_at ht index")
      (simp_all add: ht_search_def ht_probe_def probe_oob search_loop_probe)
qed

lemma ht_insert_probe:
  "ht_insert ht key val =
     (case ht_probe ht key of
        Inl e \<Rightarrow> Inl e
      | Inr p \<Rightarrow>
          if items ht ! nat p = Empty then
            (if INT_MAX \<le> count ht then Inl Int_overflow
             else Inr (ht\<lparr>items := (items ht)[nat p := Item key val], count := count ht + 1\<rparr>))
          else Inr (ht\<lparr>items := (items ht)[nat p := Item key val]\<rparr>))"
proof (cases "ht_get_hash key (size_ht ht) 0")
  case (Inl e)
  then show ?thesis by (simp add: ht_insert_def ht_probe_def)
next
  case (Inr index)
  then show ?thesis
    by (cases "item_at ht index")
      (simp_all add: ht_insert_def ht_probe_def probe_oob insert_loop_probe)
qed

lemma ht_delete_probe:
  "ht_delete ht key =
     (case ht_probe ht key of
        Inl e \<Rightarrow> Inl e
      | Inr p \<Rightarrow>
          if items ht ! nat p = Empty then Inr ht
          else if count ht \<le> INT_MIN then Inl Int_overflow
          else Inr (ht\<lparr>items := (items ht)[nat p := Deleted], count := count ht - 1\<rparr>))"
proof (cases "ht_get_hash key (size_ht ht) 0")
  case (Inl e)
  then show ?thesis by (simp add: ht_delete_def ht_probe_def)
next
  case (Inr index)
  then show ?thesis
    by (cases "item_at ht index")
      (simp_all add: ht_delete_def ht_probe_def probe_oob delete_loop_probe)
qed

lemma ht_probe_end:
  "ht_probe ht key = Inr p \<Longrightarrow>
     0 \<le> p \<and> p < int (length (items ht)) \<and>
     (items ht ! nat p = Empty \<or> is_key key (items ht ! nat p))"
  by (auto simp: ht_probe_def split: sum.splits dest: probe_end)

lemma ht_probe_update_hit:
  "size_ht ht' = size_ht ht \<Longrightarrow> items ht' = (items ht)[nat p := Item key v] \<Longrightarrow>
   ht_probe ht key = Inr p \<Longrightarrow> ht_probe ht' key = Inr p"
  by (auto simp: ht_probe_def split: sum.splits dest: probe_update_hit)

lemma ht_probe_update_other:
  "size_ht ht' = size_ht ht \<Longrightarrow> items ht' = (items ht)[q := s] \<Longrightarrow>
   s \<noteq> Empty \<Longrightarrow> \<not> is_key key s \<Longrightarrow> nat p \<noteq> q \<Longrightarrow>
   ht_probe ht key = Inr p \<Longrightarrow> ht_probe ht' key = Inr p"
  by (auto simp: ht_probe_def split: sum.splits dest: probe_update_other)

lemma ht_insert_Inr:
  assumes "ht_insert ht key val = Inr ht'"
  obtains p where "ht_probe ht key = Inr p" "0 \<le> p" "p < int (length (items ht))"
    "items ht ! nat p = Empty \<or> is_key key (items ht ! nat p)"
    "items ht' = (items ht)[nat p := Item key val]" "size_ht ht' = size_ht ht"
    "count ht' = (if items ht ! nat p = Empty then count ht + 1 else count ht)"
proof -
  obtain p where p: "ht_probe ht key = Inr p"
    using assms by (auto simp: ht_insert_probe split: sum.splits)
  moreover have "items ht' = (items ht)[nat p := Item key val]" "size_ht ht' = size_ht ht"
    "count ht' = (if items ht ! nat p = Empty then count ht + 1 else count ht)"
    using assms p by (auto simp: ht_insert_probe split: if_splits)
  ultimately show thesis
    using that ht_probe_end [OF p] by blast
qed

lemma ht_delete_Inr:
  assumes "ht_delete ht key = Inr ht'"
  obtains (absent) p where "ht_probe ht key = Inr p" "items ht ! nat p = Empty" "ht' = ht"
  | (present) p where "ht_probe ht key = Inr p" "0 \<le> p" "p < int (length (items ht))"
      "is_key key (items ht ! nat p)"
      "items ht' = (items ht)[nat p := Deleted]" "size_ht ht' = size_ht ht"
      "count ht' = count ht - 1"
proof -
  obtain p where p: "ht_probe ht key = Inr p"
    using assms by (auto simp: ht_delete_probe split: sum.splits)
  show thesis
  proof (cases "items ht ! nat p = Empty")
    case True
    then have "ht' = ht"
      using assms p by (simp add: ht_delete_probe)
    then show thesis
      using absent p True by blast
  next
    case False
    then have "items ht' = (items ht)[nat p := Deleted]" "size_ht ht' = size_ht ht"
      "count ht' = count ht - 1"
      using assms p by (auto simp: ht_delete_probe split: if_splits)
    then show thesis
      using present [of p] p False ht_probe_end [OF p] by blast
  qed
qed

lemma chained_insert:
  assumes ch: "chained ht" and ins: "ht_insert ht key val = Inr ht'"
  shows "chained ht'"
proof -
  from ins obtain p where p: "ht_probe ht key = Inr p" "0 \<le> p" "p < int (length (items ht))"
    and upd: "items ht' = (items ht)[nat p := Item key val]" and sz: "size_ht ht' = size_ht ht"
    by (rule ht_insert_Inr)
  show ?thesis
    unfolding chained_def
  proof (intro allI impI)
    fix q k v
    assume q: "q < length (items ht')" and at: "items ht' ! q = Item k v"
    show "ht_probe ht' k = Inr (int q)"
    proof (cases "q = nat p")
      case True
      then have "k = key"
        using at upd q by simp
      then show ?thesis
        using ht_probe_update_hit [OF sz upd p(1)] True p(2) by simp
    next
      case False
      then have old: "items ht ! q = Item k v" "q < length (items ht)"
        using at upd q by simp_all
      then have pr: "ht_probe ht k = Inr (int q)"
        using ch by (simp add: chained_def)
      have "k \<noteq> key"
        using pr p(1) False by auto
      then show ?thesis
        using ht_probe_update_other [OF sz upd _ _ _ pr] False by simp
    qed
  qed
qed

lemma chained_delete:
  assumes ch: "chained ht" and del: "ht_delete ht key = Inr ht'"
  shows "chained ht'"
  using del
proof (cases rule: ht_delete_Inr)
  case (absent p)
  then show ?thesis using ch by simp
next
  case (present p)
  show ?thesis
    unfolding chained_def
  proof (intro allI impI)
    fix q k v
    assume q: "q < length (items ht')" and at: "items ht' ! q = Item k v"
    have neq: "q \<noteq> nat p"
      using at q present(5) by auto
    then have old: "items ht ! q = Item k v" "q < length (items ht)"
      using at present(5) q by simp_all
    then have pr: "ht_probe ht k = Inr (int q)"
      using ch by (simp add: chained_def)
    show "ht_probe ht' k = Inr (int q)"
      using ht_probe_update_other [OF present(6) present(5) _ _ _ pr] neq by simp
  qed
qed


section \<open>The invariant of the reachable tables\<close>

lemma ht_new_fresh: "ht_new = Inr fresh_table"
  by code_simp

lemma chained_new: "ht_new = Inr ht \<Longrightarrow> chained ht"
  by (auto simp: ht_new_fresh fresh_table_def chained_def)

lemma reachable_chained: "reachable ht \<Longrightarrow> chained ht"
  by (induction rule: reachable.induct) (auto intro: chained_new chained_insert chained_delete)

lemma slot_keys_mem: "k \<in> set (slot_keys xs) \<longleftrightarrow> (\<exists>v. Item k v \<in> set xs)"
  by (induction xs rule: slot_keys.induct) auto

lemma distinct_slot_keys:
  "(\<And>i k v. i < length xs \<Longrightarrow> xs ! i = Item k v \<Longrightarrow> f k = i + d) \<Longrightarrow> distinct (slot_keys xs)"
proof (induction xs arbitrary: d)
  case Nil
  then show ?case by simp
next
  case (Cons x xs)
  have tl: "\<And>i k v. i < length xs \<Longrightarrow> xs ! i = Item k v \<Longrightarrow> f k = i + Suc d"
    using Cons.prems [of "Suc _"] by simp
  then have dist: "distinct (slot_keys xs)"
    by (rule Cons.IH)
  show ?case
  proof (cases x)
    case (Item k v)
    have "k \<notin> set (slot_keys xs)"
    proof
      assume "k \<in> set (slot_keys xs)"
      then obtain v' where "Item k v' \<in> set xs"
        by (auto simp: slot_keys_mem)
      then obtain i where "i < length xs" "xs ! i = Item k v'"
        by (auto simp: in_set_conv_nth)
      then have "f k = i + Suc d" by (rule tl)
      moreover have "f k = 0 + d"
        using Cons.prems [of 0 k v] Item by simp
      ultimately show False by simp
    qed
    then show ?thesis using dist Item by simp
  qed (use dist in simp_all)
qed

lemma chained_distinct:
  assumes "chained ht"
  shows "distinct (slot_keys (items ht))"
proof (rule distinct_slot_keys [where f = "\<lambda>k. case ht_probe ht k of Inr p \<Rightarrow> nat p | Inl e \<Rightarrow> 0" and d = 0])
  fix i k v
  assume "i < length (items ht)" "items ht ! i = Item k v"
  then have "ht_probe ht k = Inr (int i)"
    using assms by (simp add: chained_def)
  then show "(case ht_probe ht k of Inr p \<Rightarrow> nat p | Inl e \<Rightarrow> 0) = i + 0"
    by simp
qed

lemma insert_keeps_deleted:
  assumes "ht_insert ht key val = Inr ht'" "p < length (items ht)" "items ht ! p = Deleted"
  shows "items ht' ! p = Deleted"
  using assms(1)
proof (rule ht_insert_Inr)
  fix q
  assume "items ht ! nat q = Empty \<or> is_key key (items ht ! nat q)"
    and "items ht' = (items ht)[nat q := Item key val]"
  then show ?thesis
    using assms(2,3) by (cases "p = nat q") auto
qed

lemma insert_then_search:
  assumes "ht_insert ht key val = Inr ht'"
  shows "ht_search ht' key = Inr (Some val)"
  using assms
proof (rule ht_insert_Inr)
  fix p
  assume p: "ht_probe ht key = Inr p" "0 \<le> p" "p < int (length (items ht))"
    and upd: "items ht' = (items ht)[nat p := Item key val]" and sz: "size_ht ht' = size_ht ht"
  have "ht_probe ht' key = Inr p"
    using sz upd p(1) by (rule ht_probe_update_hit)
  then show ?thesis
    using upd p(2,3) by (simp add: ht_search_probe)
qed

section \<open>A walk that never meets its end\<close>

lemma probe_stuck:
  assumes hash: "\<And>j. i \<le> j \<Longrightarrow> j < n \<Longrightarrow> ht_get_hash key (size_ht ht) j = Inr index"
    and last: "ht_get_hash key (size_ht ht) n = Inl e"
    and item: "item_at ht index = Inr item" "item \<noteq> Empty" "\<not> is_key key item"
    and bounds: "i \<le> n" "n \<le> INT_MAX"
  shows "probe ht key index i = Inl e"
  using hash bounds
proof (induction "nat (n - i)" arbitrary: i)
  case 0
  then have "i = n" by simp
  then show ?case
    using last item by (subst probe.simps) simp
next
  case (Suc d)
  then have lt: "i < n" by linarith
  have step: "ht_get_hash key (size_ht ht) i = Inr index"
    using Suc.prems(1) [of i] lt by simp
  have "probe ht key index (i + 1) = Inl e"
  proof (rule Suc.hyps(1))
    show "d = nat (n - (i + 1))" using Suc.hyps(2) by linarith
    show "\<And>j. i + 1 \<le> j \<Longrightarrow> j < n \<Longrightarrow> ht_get_hash key (size_ht ht) j = Inr index"
      using Suc.prems(1) by simp
    show "i + 1 \<le> n" using lt by simp
    show "n \<le> INT_MAX" by fact
  qed
  moreover have "\<not> INT_MAX \<le> i" using lt Suc.prems(3) by simp
  ultimately show ?case
    using item step by (subst probe.simps) simp
qed

lemma smod_nonneg: "0 \<le> k \<Longrightarrow> 0 < l \<Longrightarrow> k smod l = k mod (l::int)"
  by (simp add: signed_modulo_int_def sgn_if)

lemma get_hash_bucket_52:
  assumes "ht_hash key HT_PRIME_1 53 = Inr 52" "ht_hash key HT_PRIME_2 53 = Inr 52" "0 \<le> i"
  shows "ht_get_hash key 53 i = (if 52 + i * 53 \<le> INT_MAX then Inr 52 else Inl Int_overflow)"
proof -
  have "(52 + i * 53) smod 53 = 52"
    using assms(3) by (simp add: smod_nonneg)
  then show ?thesis
    using assms
    by (simp add: ht_get_hash_def Let_def in_int_def INT_MAX_def INT_MIN_def)
qed

lemma ht_probe_stuck_52:
  assumes hash: "ht_hash key HT_PRIME_1 53 = Inr 52" "ht_hash key HT_PRIME_2 53 = Inr 52"
    and sz: "size_ht ht = 53"
    and item: "item_at ht 52 = Inr item" "item \<noteq> Empty" "\<not> is_key key item"
  shows "ht_probe ht key = Inl Int_overflow"
proof -
  have "probe ht key 52 1 = Inl Int_overflow"
  proof (rule probe_stuck [where n = 40518559])
    show "\<And>j. 1 \<le> j \<Longrightarrow> j < 40518559 \<Longrightarrow> ht_get_hash key (size_ht ht) j = Inr 52"
      by (simp add: sz get_hash_bucket_52 [OF hash] INT_MAX_def)
    show "ht_get_hash key (size_ht ht) 40518559 = Inl Int_overflow"
      by (simp add: sz get_hash_bucket_52 [OF hash] INT_MAX_def)
  qed (use item in \<open>simp_all add: INT_MAX_def\<close>)
  moreover have "ht_get_hash key 53 0 = Inr 52"
    by (simp add: get_hash_bucket_52 [OF hash] INT_MAX_def)
  ultimately show ?thesis
    by (simp add: ht_probe_def sz)
qed

section \<open>Evaluation on the concrete tables\<close>

lemma hash_4: "ht_hash ''4'' HT_PRIME_1 53 = Inr 52" "ht_hash ''4'' HT_PRIME_2 53 = Inr 52"
  by code_simp+

lemma hash_i: "ht_hash ''i'' HT_PRIME_1 53 = Inr 52" "ht_hash ''i'' HT_PRIME_2 53 = Inr 52"
  by code_simp+

lemma insert_i: "ht_insert fresh_table ''i'' ''1'' = Inr table_i"
  by code_simp

lemma insert_4: "ht_insert fresh_table ''4'' ''x'' = Inr table_4"
  by code_simp

lemma delete_4: "ht_delete table_4 ''4'' = Inr table_4d"
  by code_simp

lemma insert_a: "ht_insert fresh_table ''a'' ''1'' = Inr table_a"
  by code_simp

lemma delete_a: "ht_delete table_a ''a'' = Inr table_ad"
  by code_simp

lemma insert_a_again: "ht_insert table_ad ''a'' ''2'' = Inr table_ada"
  by code_simp

lemma reachable_fresh: "reachable fresh_table"
  by (rule reachable.created) (rule ht_new_fresh)

lemma reachable_table_i: "reachable table_i"
  by (rule reachable.inserted [OF reachable_fresh insert_i])

lemma reachable_table_4: "reachable table_4"
  by (rule reachable.inserted [OF reachable_fresh insert_4])

lemma reachable_table_4d: "reachable table_4d"
  by (rule reachable.deleted [OF reachable_table_4 delete_4])

lemma reachable_table_ad: "reachable table_ad"
  by (rule reachable.deleted [OF reachable.inserted [OF reachable_fresh insert_a] delete_a])

lemma reachable_table_ada: "reachable table_ada"
  by (rule reachable.inserted [OF reachable_table_ad insert_a_again])

lemma insert_b: "ht_insert table_ada ''b'' ''3'' = Inr table_adab"
  by code_simp

lemma reachable_table_adab: "reachable table_adab"
  by (rule reachable.inserted [OF reachable_table_ada insert_b])

lemma probe_4_in_table_i: "ht_probe table_i ''4'' = Inl Int_overflow"
  by (rule ht_probe_stuck_52 [OF hash_4, where item = "Item ''i'' ''1''"]) code_simp+

lemma probe_i_in_table_4: "ht_probe table_4 ''i'' = Inl Int_overflow"
  by (rule ht_probe_stuck_52 [OF hash_i, where item = "Item ''4'' ''x''"]) code_simp+

lemma probe_4_in_table_4d: "ht_probe table_4d ''4'' = Inl Int_overflow"
  by (rule ht_probe_stuck_52 [OF hash_4, where item = Deleted]) code_simp+

lemma ht_insert_size: "ht_insert ht key val = Inr ht' \<Longrightarrow> size_ht ht' = size_ht ht \<and> length (items ht') = length (items ht)"
  by (erule ht_insert_Inr) simp

lemma ht_delete_size: "ht_delete ht key = Inr ht' \<Longrightarrow> size_ht ht' = size_ht ht \<and> length (items ht') = length (items ht)"
  by (erule ht_delete_Inr) simp_all

lemma reachable_capacity: "reachable ht \<Longrightarrow> size_ht ht = 53 \<and> length (items ht) = 53"
proof (induction rule: reachable.induct)
  case (created ht)
  then show ?case by (auto simp: ht_new_fresh fresh_table_def)
next
  case (inserted ht key val ht')
  then show ?case using ht_insert_size by metis
next
  case (deleted ht key ht')
  then show ?case using ht_delete_size by metis
qed

section \<open>A table without an empty slot\<close>

lemma probe_no_vacancy:
  "list_all (\<lambda>s. s \<noteq> Empty \<and> \<not> is_key key s) (items ht) \<Longrightarrow> isl (probe ht key index i)"
proof (induction ht key index i rule: probe.induct)
  case (1 ht key index i)
  show ?case
  proof (cases "item_at ht index")
    case (Inl e)
    then show ?thesis by (simp add: probe_oob)
  next
    case (Inr item)
    then have "item \<in> set (items ht)"
      by (auto simp: item_at_def split: if_splits)
    then have skip: "\<not> (item = Empty \<or> is_key key item)"
      using "1.prems" by (auto simp: list_all_iff)
    show ?thesis
      apply (subst probe.simps)
      using Inr skip "1.IH" [OF Inr skip] "1.prems"
      apply (auto split: sum.splits)
      done
  qed
qed

lemma ht_insert_no_vacancy:
  "list_all (\<lambda>s. s \<noteq> Empty \<and> \<not> is_key key s) (items ht) \<Longrightarrow> isl (ht_insert ht key val)"
proof (cases "ht_get_hash key (size_ht ht) 0")
  case (Inl e)
  then show ?thesis by (simp add: ht_insert_probe ht_probe_def)
next
  case (Inr index)
  assume "list_all (\<lambda>s. s \<noteq> Empty \<and> \<not> is_key key s) (items ht)"
  then have "isl (probe ht key index 1)"
    by (rule probe_no_vacancy)
  then obtain e where "probe ht key index 1 = Inl e"
    by (cases "probe ht key index 1") simp_all
  then show ?thesis
    using Inr by (simp add: ht_insert_probe ht_probe_def)
qed

lemma full_table:
  "(case ht_insert_all fresh_table keys53 of
      Inl e \<Rightarrow> False
    | Inr ht \<Rightarrow> size_ht ht = 53 \<and> count ht = 53 \<and>
        list_all (\<lambda>s. s \<noteq> Empty \<and> \<not> is_key ''zz'' s) (items ht))"
  by code_simp

section \<open>The hash where nothing overflows\<close>

lemma ht_hash_empty: "ht_hash [] a m = Inr 0"
  by (simp add: ht_hash_def)

lemma pow_long_exact:
  "\<bar>a ^ e\<bar> \<le> 9007199254740992 \<Longrightarrow> pow_long a e = Inr (a ^ e)"
  by (auto simp: pow_long_def round_double_def in_long_def LONG_MIN_def LONG_MAX_def Let_def)

lemma ht_hash_loop_poly:
  "ht_hash_loop s a m h = Inr r \<Longrightarrow> 0 < m \<Longrightarrow> 1 \<le> a \<Longrightarrow>
   a ^ (length s - 1) \<le> 9007199254740992 \<Longrightarrow>
   list_all (\<lambda>c. 0 \<le> char_val c) s \<Longrightarrow> 0 \<le> h \<Longrightarrow> h < m \<Longrightarrow>
   r = (h + poly_hash s a) mod m"
proof (induction s arbitrary: h)
  case Nil
  then show ?case by simp
next
  case (Cons c cs)
  have small: "a ^ length cs \<le> 9007199254740992"
    using Cons.prems(4) by simp
  then have p: "pow_long a (length cs) = Inr (a ^ length cs)"
    using Cons.prems(3) by (intro pow_long_exact) simp
  have "a ^ (length cs - 1) \<le> a ^ length cs"
    using Cons.prems(3) by (intro power_increasing) simp_all
  then have small': "a ^ (length cs - 1) \<le> 9007199254740992"
    using small by linarith
  define t where "t = a ^ length cs * char_val c"
  have t0: "0 \<le> t"
    using Cons.prems(3,5) by (simp add: t_def)
  have run: "ht_hash_loop cs a m ((h + t) smod m) = Inr r"
    using Cons.prems(1,2) p by (auto simp: Let_def t_def split: if_splits)
  have sm: "(h + t) smod m = (h + t) mod m"
    using t0 Cons.prems(2,6) by (simp add: smod_nonneg)
  have "r = ((h + t) mod m + poly_hash cs a) mod m"
    using Cons.IH [OF run [unfolded sm]] Cons.prems(2,3,5) small' by simp
  then show ?case
    by (simp add: t_def mod_add_left_eq add.assoc)
qed

lemma ht_hash_poly:
  assumes "ht_hash s a m = Inr r" "0 < m" "1 \<le> a" "a ^ (length s - 1) \<le> 9007199254740992"
    "list_all (\<lambda>c. 0 \<le> char_val c) s"
  shows "r = poly_hash s a mod m" "0 \<le> r" "r < m"
proof -
  show "r = poly_hash s a mod m"
    using ht_hash_loop_poly [of s a m 0 r] assms by (simp add: ht_hash_def)
  then show "0 \<le> r" "r < m"
    using assms(2) by simp_all
qed

text \<open>
  Beyond \<open>2^53\<close> the power is the rounded one: \<open>151^8\<close> is 270281038127131201, the
  \<^verbatim>\<open>double\<close> is 270281038127131200, and a key of nine bytes whose products stay in
  \<^verbatim>\<open>long\<close> is hashed and stored.
\<close>

lemma pow_long_rounded: "pow_long 151 8 = Inr 270281038127131200"
  by code_simp

lemma pow_long_rounded_2: "pow_long 163 8 = Inr 498311414318121152"
  by code_simp

lemma insert_nine_bytes:
  "ht_insert fresh_table (CHR 0x09 # ''aaaaaaaa'') ''v'' =
     Inr (fresh_table\<lparr>items := (items fresh_table)[14 := Item (CHR 0x09 # ''aaaaaaaa'') ''v''],
       count := 1\<rparr>)"
  by code_simp

section \<open>What the operations do when they return\<close>

lemma insert_overwrites_in_place:
  assumes "ht_insert ht key v1 = Inr ht1"
  shows "\<exists>p < length (items ht1). items ht1 ! p = Item key v1 \<and>
           ht_insert ht1 key v2 = Inr (ht1\<lparr>items := (items ht1)[p := Item key v2]\<rparr>)"
  using assms
proof (rule ht_insert_Inr)
  fix p
  assume p: "ht_probe ht key = Inr p" "0 \<le> p" "p < int (length (items ht))"
    and upd: "items ht1 = (items ht)[nat p := Item key v1]" and sz: "size_ht ht1 = size_ht ht"
  have "ht_probe ht1 key = Inr p"
    using sz upd p(1) by (rule ht_probe_update_hit)
  moreover have "nat p < length (items ht1)" "items ht1 ! nat p = Item key v1"
    using upd p(2,3) by simp_all
  ultimately show ?thesis
    by (auto simp: ht_insert_probe)
qed

lemma slot_keys_fill:
  "p < length xs \<Longrightarrow> xs ! p = Empty \<Longrightarrow>
   length (slot_keys (xs[p := Item k v])) = Suc (length (slot_keys xs))"
proof (induction xs arbitrary: p)
  case Nil
  then show ?case by simp
next
  case (Cons x xs)
  then show ?case by (cases p; cases x) auto
qed

lemma slot_keys_overwrite:
  "p < length xs \<Longrightarrow> is_key k (xs ! p) \<Longrightarrow>
   length (slot_keys (xs[p := Item k v])) = length (slot_keys xs)"
proof (induction xs arbitrary: p)
  case Nil
  then show ?case by simp
next
  case (Cons x xs)
  then show ?case by (cases p; cases x) auto
qed

lemma slot_keys_remove:
  "p < length xs \<Longrightarrow> is_key k (xs ! p) \<Longrightarrow>
   Suc (length (slot_keys (xs[p := Deleted]))) = length (slot_keys xs)"
proof (induction xs arbitrary: p)
  case Nil
  then show ?case by simp
next
  case (Cons x xs)
  then show ?case by (cases p; cases x) auto
qed

lemma reachable_count: "reachable ht \<Longrightarrow> count ht = int (length (slot_keys (items ht)))"
proof (induction rule: reachable.induct)
  case (created ht)
  then have "ht = fresh_table" by (simp add: ht_new_fresh)
  moreover have "slot_keys (replicate n Empty) = []" for n
    by (induction n) simp_all
  ultimately show ?case by (simp add: fresh_table_def)
next
  case (inserted ht key val ht')
  from inserted.hyps(2) show ?case
  proof (rule ht_insert_Inr)
    fix p
    assume "0 \<le> p" "p < int (length (items ht))"
      "items ht ! nat p = Empty \<or> is_key key (items ht ! nat p)"
      "items ht' = (items ht)[nat p := Item key val]"
      "count ht' = (if items ht ! nat p = Empty then count ht + 1 else count ht)"
    then show ?thesis
      using inserted.IH slot_keys_fill [of "nat p" "items ht" key val]
        slot_keys_overwrite [of "nat p" "items ht" key val]
      by (cases "items ht ! nat p = Empty") auto
  qed
next
  case (deleted ht key ht')
  from deleted.hyps(2) show ?case
  proof (cases rule: ht_delete_Inr)
    case (absent p)
    then show ?thesis using deleted.IH by simp
  next
    case (present p)
    moreover have "nat p < length (items ht)"
      using present(2,3) by simp
    ultimately show ?thesis
      using deleted.IH slot_keys_remove [of "nat p" "items ht" key] by auto
  qed
qed

lemma search_present:
  assumes "reachable ht" "p < length (items ht)" "items ht ! p = Item key v"
  shows "ht_search ht key = Inr (Some v)"
proof -
  have "ht_probe ht key = Inr (int p)"
    using reachable_chained [OF assms(1)] assms(2,3) by (simp add: chained_def)
  then show ?thesis
    using assms(3) by (simp add: ht_search_probe)
qed

lemma search_null_absent:
  assumes "reachable ht" "ht_search ht key = Inr None"
  shows "key \<notin> set (slot_keys (items ht))"
proof
  assume "key \<in> set (slot_keys (items ht))"
  then obtain v where "Item key v \<in> set (items ht)"
    by (auto simp: slot_keys_mem)
  then obtain p where "p < length (items ht)" "items ht ! p = Item key v"
    by (auto simp: in_set_conv_nth)
  then have "ht_search ht key = Inr (Some v)"
    using assms(1) by (rule search_present [rotated])
  then show False
    using assms(2) by simp
qed

lemma delete_present:
  assumes "reachable ht" "p < length (items ht)" "items ht ! p = Item key v"
  shows "ht_delete ht key =
    Inr (ht\<lparr>items := (items ht)[p := Deleted], count := count ht - 1\<rparr>)"
proof -
  have "ht_probe ht key = Inr (int p)"
    using reachable_chained [OF assms(1)] assms(2,3) by (simp add: chained_def)
  moreover have "0 \<le> count ht"
    using reachable_count [OF assms(1)] by simp
  ultimately show ?thesis
    using assms(3) by (simp add: ht_delete_probe INT_MIN_def)
qed


section \<open>The claims\<close>

text \<open>
  Claim C1: the load factor is kept in its band by resize triggers in insert and delete;
  after \<open>N\<close> inserts of distinct keys into a fresh table the capacity is at least
  \<open>N / 0.7\<close>, the table never overfills. \<^verbatim>\<open>ht_insert\<close> and \<^verbatim>\<open>ht_delete\<close> never
  call \<^verbatim>\<open>ht_resize_up\<close> or \<^verbatim>\<open>ht_resize_down\<close>, which no function of the file calls:
  after 53 inserts of distinct keys the capacity is still 53, every slot is taken, and the
  insert of one more key meets neither an empty slot nor its key: it ends in undefined
  behaviour.
\<close>

theorem capacity_fixed_under_inserts:
  "ht_new = Inr fresh_table \<and> distinct (map fst keys53) \<and> length keys53 = 53 \<and>
   (case ht_insert_all fresh_table keys53 of
      Inl e \<Rightarrow> False
    | Inr ht \<Rightarrow> size_ht ht = 53 \<and> count ht = 53 \<and> 7 * size_ht ht < 10 * count ht \<and>
        isl (ht_insert ht ''zz'' ''v''))"
proof -
  have "distinct (map fst keys53)" "length keys53 = 53"
    by code_simp+
  moreover have "(case ht_insert_all fresh_table keys53 of
      Inl e \<Rightarrow> False
    | Inr ht \<Rightarrow> size_ht ht = 53 \<and> count ht = 53 \<and> 7 * size_ht ht < 10 * count ht \<and>
        isl (ht_insert ht ''zz'' ''v''))"
    using full_table by (auto split: sum.splits intro: ht_insert_no_vacancy)
  ultimately show ?thesis
    using ht_new_fresh by simp
qed

text \<open>
  Claim C2: for every key and prime capacity \<open>m\<close> the step \<open>hash_b + 1\<close> is never zero
  modulo \<open>m\<close>. For the key \<^verbatim>\<open>"4"\<close> and the capacity 53 of a new table,
  \<open>hash_b\<close> is 52: the step is 53, and every attempt examines bucket 52.
\<close>

theorem probe_step_multiple_of_capacity:
  "is_prime 53 \<and> ht_hash ''4'' HT_PRIME_2 53 = Inr 52 \<and> (52 + 1) smod (53::int) = 0 \<and>
   ht_get_hash ''4'' 53 0 = Inr 52 \<and> ht_get_hash ''4'' 53 1 = Inr 52 \<and>
   ht_get_hash ''4'' 53 2 = Inr 52 \<and> ht_get_hash ''4'' 53 3 = Inr 52"
  by code_simp

text \<open>
  Claim C3: in every reachable table the probe loops of search, insert and delete end,
  since an empty slot is met. In the table that holds the one key \<^verbatim>\<open>"i"\<close> the three
  loops for the key \<^verbatim>\<open>"4"\<close> read bucket 52 again and again and leave it only when
  \<^verbatim>\<open>hash_a + attempt * (hash_b + 1)\<close> leaves the range of \<^verbatim>\<open>int\<close>.
\<close>

theorem probe_loops_stuck_on_bucket_52:
  "reachable table_i \<and> ht_search table_i ''4'' = Inl Int_overflow \<and>
   ht_insert table_i ''4'' ''2'' = Inl Int_overflow \<and>
   ht_delete table_i ''4'' = Inl Int_overflow"
  by (simp add: reachable_table_i ht_search_probe ht_insert_probe ht_delete_probe
      probe_4_in_table_i)

text \<open>
  Claim C4: round trip, in every reachable table \<^verbatim>\<open>insert(t, k, v)\<close> followed by
  \<^verbatim>\<open>search(t, k)\<close> returns \<open>v\<close>. In the table that holds the one key \<^verbatim>\<open>"4"\<close> the
  insert of \<^verbatim>\<open>"i"\<close> runs into undefined behaviour, the signed overflow in
  \<^verbatim>\<open>ht_get_hash\<close>, before it returns.
\<close>

theorem insert_after_collision_no_result:
  "reachable table_4 \<and> ht_insert table_4 ''i'' ''2'' = Inl Int_overflow"
  by (simp add: reachable_table_4 ht_insert_probe probe_i_in_table_4)

text \<open>
  Claim C5: in every table reachable from \<^verbatim>\<open>ht_new\<close> by calls of \<^verbatim>\<open>ht_insert\<close> and
  \<^verbatim>\<open>ht_delete\<close>, no two live items hold the same key.
\<close>

theorem reachable_distinct_keys:
  "reachable ht \<Longrightarrow> distinct (slot_keys (items ht))"
  by (rule chained_distinct) (rule reachable_chained)

theorem reachable_distinct_keys_witness:
  "reachable table_adab \<and> distinct (slot_keys (items table_adab)) \<and>
   slot_keys (items table_adab) = [''a'', ''b'']"
proof -
  have "slot_keys (items table_adab) = [''a'', ''b'']"
    by code_simp
  then show ?thesis
    using reachable_distinct_keys [OF reachable_table_adab] reachable_table_adab by simp
qed

text \<open>
  Claim C6: overwrite, in every reachable table \<^verbatim>\<open>insert(t, k, v1)\<close> followed by
  \<^verbatim>\<open>insert(t, k, v2)\<close> leaves \<open>v2\<close> under \<open>k\<close> in the same slot and the count
  unchanged. In the table left by the insert and the delete of \<^verbatim>\<open>"4"\<close>, which holds
  no item, the first insert of \<^verbatim>\<open>"4"\<close> runs into undefined behaviour before it
  returns.
\<close>

theorem insert_onto_tombstone_no_result:
  "reachable table_4d \<and> slot_keys (items table_4d) = [] \<and>
   ht_insert table_4d ''4'' ''v1'' = Inl Int_overflow"
proof -
  have "slot_keys (items table_4d) = []"
    by code_simp
  then show ?thesis
    by (simp add: reachable_table_4d ht_insert_probe probe_4_in_table_4d)
qed

text \<open>
  Claim C7: the delete of a present key leaves a tombstone in its slot, takes one from
  the count, and a search for the key then reports not-found. After the delete of
  \<^verbatim>\<open>"4"\<close> from the table that holds it alone, the slot is a tombstone and the count is
  one less, and the search for \<^verbatim>\<open>"4"\<close> runs into undefined behaviour before it
  returns.
\<close>

theorem search_after_delete_no_result:
  "reachable table_4 \<and> slot_keys (items table_4) = [''4''] \<and>
   ht_delete table_4 ''4'' = Inr table_4d \<and> items table_4d ! 52 = Deleted \<and>
   count table_4d = count table_4 - 1 \<and> ht_search table_4d ''4'' = Inl Int_overflow"
proof -
  have "slot_keys (items table_4) = [''4'']" "items table_4d ! 52 = Deleted"
    "count table_4d = count table_4 - 1"
    by code_simp+
  then show ?thesis
    by (simp add: reachable_table_4 delete_4 ht_search_probe probe_4_in_table_4d)
qed

text \<open>
  Claim C8: insert takes a slot from tombstone to occupied, that is, for some reachable
  table and key, insert places the new item in a slot marked as tombstone. No insert
  does. As amended: whenever insert returns, the one slot it has written was empty or
  held the same key, and every tombstone is still a tombstone after the insert.
\<close>

theorem insert_writes_empty_or_same_key:
  assumes "ht_insert ht key val = Inr ht'"
  shows "(\<exists>p < length (items ht).
            (items ht ! p = Empty \<or> is_key key (items ht ! p)) \<and>
            items ht' = (items ht)[p := Item key val]) \<and>
         (\<forall>q < length (items ht). items ht ! q = Deleted \<longrightarrow> items ht' ! q = Deleted)"
  using assms
proof (rule ht_insert_Inr)
  fix p
  assume "0 \<le> p" "p < int (length (items ht))"
    "items ht ! nat p = Empty \<or> is_key key (items ht ! nat p)"
    "items ht' = (items ht)[nat p := Item key val]"
  then have "nat p < length (items ht) \<and>
      (items ht ! nat p = Empty \<or> is_key key (items ht ! nat p)) \<and>
      items ht' = (items ht)[nat p := Item key val]"
    by simp
  then show ?thesis
    using insert_keeps_deleted [OF assms] by blast
qed

theorem insert_writes_empty_or_same_key_witness:
  "ht_insert table_ad ''a'' ''2'' = Inr table_ada \<and> items table_ad ! 44 = Deleted \<and>
   items table_ada ! 44 = Deleted \<and> items table_ada ! 36 = Item ''a'' ''2''"
proof -
  have tomb: "items table_ad ! 44 = Deleted" "44 < length (items table_ad)"
    by code_simp+
  have "\<forall>q < length (items table_ad). items table_ad ! q = Deleted \<longrightarrow> items table_ada ! q = Deleted"
    using insert_writes_empty_or_same_key [OF insert_a_again] by simp
  then have "items table_ada ! 44 = Deleted"
    using tomb by blast
  moreover have "items table_ada ! 36 = Item ''a'' ''2''"
    by code_simp
  ultimately show ?thesis
    using insert_a_again tomb by simp
qed

theorem no_insert_into_tombstone:
  "\<not> (\<exists>ht key val ht' p. reachable ht \<and> ht_insert ht key val = Inr ht' \<and>
        p < length (items ht) \<and> items ht ! p = Deleted \<and> items ht' ! p = Item key val)"
  using insert_keeps_deleted by fastforce

text \<open>
  Claim C9: for every string, multiplier \<open>a\<close> and modulus \<open>m > 0\<close>, \<^verbatim>\<open>ht_hash\<close> is
  the base-\<open>a\<close> polynomial of the character codes modulo \<open>m\<close>, in \<open>[0, m)\<close>, reduced
  step by step so that no intermediate value overflows. The power \<^verbatim>\<open>pow(a, len_s - (i+1))\<close>
  is taken in full: for a key of ten characters \<open>151^9\<close> is beyond \<^verbatim>\<open>long\<close>. Where
  \<^verbatim>\<open>char\<close> is signed, a byte above 127 gives a negative hash.
\<close>

theorem ht_hash_long_key_overflows:
  "ht_hash ''aaaaaaaaaa'' HT_PRIME_1 53 = Inl Long_overflow \<and>
   ht_hash [CHR 0xFF] HT_PRIME_1 53 = Inr (- 1)"
  by code_simp

text \<open>
  Claim C10: in every reachable table \<^verbatim>\<open>ht_search\<close> returns \<^verbatim>\<open>NULL\<close> exactly when no
  live item holds the key. The table left by the insert and the delete of \<^verbatim>\<open>"4"\<close>
  holds no item, and the search for \<^verbatim>\<open>"i"\<close> runs into undefined behaviour before
  it returns anything.
\<close>

theorem search_absent_key_no_null:
  "reachable table_4d \<and> ''i'' \<notin> set (slot_keys (items table_4d)) \<and>
   ht_search table_4d ''i'' = Inl Int_overflow"
proof -
  have "''i'' \<notin> set (slot_keys (items table_4d))"
    by code_simp
  moreover have "ht_probe table_4d ''i'' = Inl Int_overflow"
    by (rule ht_probe_stuck_52 [OF hash_i, where item = Deleted]) code_simp+
  ultimately show ?thesis
    by (simp add: reachable_table_4d ht_search_probe)
qed

end
